theory Spec2Isabelle
  imports Main "HOL-Library.Sublist"
begin

section \<open>Strings\<close>

text \<open>
  A JavaScript string is modelled as a \<^typ>\<open>string\<close>, one \<^typ>\<open>char\<close> per code unit.
  \<open>s.includes(t)\<close> is true when \<open>t\<close> occurs in \<open>s\<close> as a contiguous run,
  \<open>s.startsWith(t)\<close> when \<open>t\<close> is a prefix of \<open>s\<close>.
\<close>

fun startsWith :: "string \<Rightarrow> string \<Rightarrow> bool" where
  "startsWith s [] = True"
| "startsWith [] (c # t) = False"
| "startsWith (d # s) (c # t) = (d = c \<and> startsWith s t)"

fun includesStr :: "string \<Rightarrow> string \<Rightarrow> bool" where
  "includesStr [] t = (t = [])"
| "includesStr (c # s) t = (startsWith (c # s) t \<or> includesStr s t)"

section \<open>URL normalizer\<close>

text \<open>
  \<^verbatim>\<open>
  export function normalizeURL(url: string): string {
    const urlWithoutAnchor = url.split("#")[0];
    return urlWithoutAnchor.endsWith("/")
      ? urlWithoutAnchor.slice(0, -1)
      : urlWithoutAnchor;
  }
  \<close>
  \<open>url.split("#")[0]\<close> is the part of \<open>url\<close> before its first \<open>#\<close> (all of it when there
  is none); \<open>slice(0, -1)\<close> drops the last code unit.
\<close>

definition urlWithoutAnchor :: "string \<Rightarrow> string" where
  "urlWithoutAnchor url = takeWhile (\<lambda>c. c \<noteq> CHR ''#'') url"

definition endsWithSlash :: "string \<Rightarrow> bool" where
  "endsWithSlash s = (s \<noteq> [] \<and> last s = CHR ''/'')"

definition normalizeURL :: "string \<Rightarrow> string" where
  "normalizeURL url =
     (if endsWithSlash (urlWithoutAnchor url) then butlast (urlWithoutAnchor url)
      else urlWithoutAnchor url)"

section \<open>Errors\<close>

text \<open>
  Every exception the pipeline can raise is a value of \<open>error\<close>; a function that can
  throw returns \<open>error + 'a\<close> with \<open>Inl\<close> for the exception.
\<close>

datatype error =
    NavigationError      \<comment> \<open>\<open>newPage\<close>, \<open>goto\<close>, \<open>evaluate\<close> or \<open>close\<close> rejects during the crawl\<close>
  | NoPDFsGenerated      \<comment> \<open>\<open>Error("No PDFs were generated successfully")\<close>\<close>
  | PDFLoadError         \<comment> \<open>\<open>PDFDocument.load\<close> rejects\<close>
  | LimitTypeError       \<comment> \<open>\<open>pLimit\<close> refuses a limit that is not a positive integer\<close>
  | MainUrlRequired      \<comment> \<open>\<open>Error("<main_url> is required")\<close>\<close>
  | RegExpSyntaxError    \<comment> \<open>\<open>new RegExp\<close> refuses its pattern\<close>
  | LaunchError          \<comment> \<open>\<open>useBrowserContext\<close> rejects\<close>
  | FsError              \<comment> \<open>\<open>ensureDir\<close> or \<open>writeFile\<close> rejects\<close>

section \<open>Link crawler\<close>

text \<open>
  What the browser does for one URL during the crawl: either one of \<open>newPage\<close>,
  \<open>goto\<close>, \<open>evaluate\<close>, \<open>close\<close> rejects, or the page loads and lists its anchors.
  An anchor is \<open>Some\<close> of \<open>new URL(link.href, window.location.href).href\<close>, or \<open>None\<close>
  where the \<open>URL\<close> constructor throws.
\<close>

datatype fetch_outcome = FetchThrows | Anchors "string option list"

text \<open>
  The callback of \<open>links.map\<close> inside \<open>page.evaluate\<close>. The parameter \<open>test\<close> is
  \<open>new RegExp(pattern).test\<close> as evaluated in the page (false where it throws: the
  \<open>catch\<close> returns \<open>null\<close> as well).
\<close>

definition keepLink :: "(string \<Rightarrow> bool) \<Rightarrow> string \<Rightarrow> bool" where
  "keepLink test resolvedUrl =
     (\<not> includesStr resolvedUrl ''#'' \<and>
      \<not> includesStr resolvedUrl ''mailto:'' \<and>
      \<not> includesStr resolvedUrl ''tel:'' \<and>
      test resolvedUrl)"

fun filterLink :: "(string \<Rightarrow> bool) \<Rightarrow> string option \<Rightarrow> string option" where
  "filterLink test None = None"
| "filterLink test (Some resolvedUrl) =
     (if keepLink test resolvedUrl then Some resolvedUrl else None)"

text \<open>\<open>Boolean(x)\<close> on \<open>string | null\<close>: \<open>null\<close> and the empty string are falsy.\<close>

fun Boolean :: "string option \<Rightarrow> bool" where
  "Boolean None = False"
| "Boolean (Some s) = (s \<noteq> [])"

definition subLinks :: "(string \<Rightarrow> bool) \<Rightarrow> string option list \<Rightarrow> string list" where
  "subLinks test anchors = map the (filter Boolean (map (filterLink test) anchors))"

text \<open>
  \<open>crawledUrls\<close> is a \<open>Set<string>\<close>: a list without repetition in insertion order
  (\<open>Array.from\<close> reads it in that order). \<open>queue\<close> is an array used first-in first-out.
\<close>

record crawl_state =
  crawledUrls :: "string list"
  queue :: "string list"

definition set_add :: "string \<Rightarrow> string list \<Rightarrow> string list" where
  "set_add x xs = (if x \<in> set xs then xs else xs @ [x])"

text \<open>The body of \<open>for (const link of subLinks)\<close>.\<close>

definition enqueue :: "string list \<Rightarrow> string list \<Rightarrow> string \<Rightarrow> string list" where
  "enqueue crawled q link =
     (let normalized = normalizeURL link
      in if normalized \<notin> set crawled \<and> normalized \<notin> set q then q @ [normalized] else q)"

text \<open>
  \<open>crawlPage\<close>: the \<open>try\<close> has a \<open>finally\<close> and no \<open>catch\<close>, so a rejection of
  \<open>goto\<close> or \<open>evaluate\<close> leaves \<open>crawlPage\<close> after the page is closed.
\<close>

definition crawlPage ::
  "(string \<Rightarrow> fetch_outcome) \<Rightarrow> (string \<Rightarrow> bool) \<Rightarrow> crawl_state \<Rightarrow> string \<Rightarrow> error + crawl_state"
where
  "crawlPage fetch test st currentUrl =
     (if currentUrl \<in> set (crawledUrls st) then Inr st
      else
        let crawled = set_add currentUrl (crawledUrls st)
        in case fetch currentUrl of
             FetchThrows \<Rightarrow> Inl NavigationError
           | Anchors anchors \<Rightarrow>
               Inr \<lparr>crawledUrls = crawled,
                    queue = foldl (enqueue crawled) (queue st) (subLinks test anchors)\<rparr>)"

text \<open>
  \<open>while (queue.length > 0) { const currentUrl = queue.shift()!; await crawlPage(currentUrl); }\<close>
  The loop may run forever on an unbounded site: not returning is the value \<open>None\<close>.
\<close>

partial_function (option) crawlLoop ::
  "(string \<Rightarrow> fetch_outcome) \<Rightarrow> (string \<Rightarrow> bool) \<Rightarrow> crawl_state \<Rightarrow> (error + crawl_state) option"
where
  "crawlLoop fetch test st =
     (case queue st of
        [] \<Rightarrow> Some (Inr st)
      | currentUrl # rest \<Rightarrow>
          (case crawlPage fetch test (st\<lparr>queue := rest\<rparr>) currentUrl of
             Inl e \<Rightarrow> Some (Inl e)
           | Inr st' \<Rightarrow> crawlLoop fetch test st'))"

declare crawlLoop.simps [code]

definition initial :: "string \<Rightarrow> crawl_state" where
  "initial url = \<lparr>crawledUrls = [], queue = [url]\<rparr>"

definition crawl ::
  "(string \<Rightarrow> fetch_outcome) \<Rightarrow> (string \<Rightarrow> bool) \<Rightarrow> string \<Rightarrow> (error + crawl_state) option"
where
  "crawl fetch test url = crawlLoop fetch test (initial url)"

text \<open>One round of the loop as a step relation, and the states the loop passes through.\<close>

inductive crawlStep ::
  "(string \<Rightarrow> fetch_outcome) \<Rightarrow> (string \<Rightarrow> bool) \<Rightarrow> crawl_state \<Rightarrow> crawl_state \<Rightarrow> bool"
  for fetch test
where
  round: "queue st = currentUrl # rest \<Longrightarrow>
          crawlPage fetch test (st\<lparr>queue := rest\<rparr>) currentUrl = Inr st' \<Longrightarrow>
          crawlStep fetch test st st'"

inductive crawlReaches ::
  "(string \<Rightarrow> fetch_outcome) \<Rightarrow> (string \<Rightarrow> bool) \<Rightarrow> string \<Rightarrow> crawl_state \<Rightarrow> bool"
  for fetch test url
where
  start: "crawlReaches fetch test url (initial url)"
| step: "crawlReaches fetch test url st \<Longrightarrow> crawlStep fetch test st st' \<Longrightarrow>
         crawlReaches fetch test url st'"

text \<open>
  \<open>const uniqueSubLinks = Array.from(crawledUrls);
  if (!uniqueSubLinks.includes(url)) uniqueSubLinks.unshift(url);\<close>
\<close>

definition uniqueSubLinks :: "string \<Rightarrow> string list \<Rightarrow> string list" where
  "uniqueSubLinks url crawled = (if url \<in> set crawled then crawled else url # crawled)"

text \<open>
  The links the crawl has extracted so far: the anchors of the pages in \<open>crawledUrls\<close>
  that loaded.
\<close>

definition anchorsOf :: "(string \<Rightarrow> fetch_outcome) \<Rightarrow> string \<Rightarrow> string option list" where
  "anchorsOf fetch u = (case fetch u of FetchThrows \<Rightarrow> [] | Anchors anchors \<Rightarrow> anchors)"

definition extractedLinks :: "(string \<Rightarrow> fetch_outcome) \<Rightarrow> string list \<Rightarrow> string list" where
  "extractedLinks fetch crawled =
     map the (filter (\<lambda>a. a \<noteq> None) (concat (map (anchorsOf fetch) crawled)))"

text \<open>
  A finite link graph: a list of URLs that holds, for each of its pages that loads, the
  normalized form of every link the page contributes to the queue.
\<close>

definition linkClosed ::
  "(string \<Rightarrow> fetch_outcome) \<Rightarrow> (string \<Rightarrow> bool) \<Rightarrow> string list \<Rightarrow> bool"
where
  "linkClosed fetch test us =
     list_all (\<lambda>u. list_all (\<lambda>link. normalizeURL link \<in> set us)
                       (subLinks test (anchorsOf fetch u))) us"

text \<open>The invariants of the crawl loop.\<close>

definition crawlInv :: "crawl_state \<Rightarrow> bool" where
  "crawlInv st =
     (distinct (crawledUrls st) \<and> distinct (queue st) \<and>
      set (queue st) \<inter> set (crawledUrls st) = {})"

definition seedFirst :: "string \<Rightarrow> crawl_state \<Rightarrow> bool" where
  "seedFirst url st =
     (if crawledUrls st = [] then queue st = [url] else hd (crawledUrls st) = url)"

definition scopeInv ::
  "(string \<Rightarrow> fetch_outcome) \<Rightarrow> (string \<Rightarrow> bool) \<Rightarrow> string \<Rightarrow> crawl_state \<Rightarrow> bool"
where
  "scopeInv fetch test url st =
     (\<forall>v \<in> set (crawledUrls st) \<union> set (queue st).
        v = url \<or> (\<exists>l \<in> set (extractedLinks fetch (crawledUrls st)).
                     keepLink test l \<and> v = normalizeURL l))"

section \<open>Render scheduler\<close>

text \<open>
  What the browser does for one link during rendering. \<open>NewPageThrows\<close>: \<open>newPage\<close>
  rejects, outside the \<open>try\<close>. \<open>Tab body closeOk\<close>: the \<open>try\<close> block yields
  \<open>Some pdfBytes\<close>, or \<open>None\<close> when one of its steps throws (the \<open>catch\<close> then returns
  \<open>null\<close>); \<open>closeOk\<close> tells whether \<open>newPage.close()\<close> in the \<open>finally\<close> succeeds.
\<close>

datatype 'b tab = NewPageThrows | Tab "'b option" bool

text \<open>A settled promise of \<open>generatePDFForPage\<close>: fulfilled with a value or \<open>null\<close>, or rejected.\<close>

datatype 'b settled = Fulfilled "(string \<times> 'b) option" | Rejected

definition generatePDFForPage :: "(string \<Rightarrow> 'b tab) \<Rightarrow> string \<Rightarrow> 'b settled" where
  "generatePDFForPage browser link =
     (case browser link of
        NewPageThrows \<Rightarrow> Rejected
      | Tab body closeOk \<Rightarrow>
          if closeOk
          then (case body of Some pdfBytes \<Rightarrow> Fulfilled (Some (link, pdfBytes))
                           | None \<Rightarrow> Fulfilled None)
          else Rejected)"

text \<open>
  \<open>Promise.allSettled\<close> over the promises \<open>ps\<close>, given by what each settles to, which
  settle in the order \<open>completion\<close> (a list of indices into \<open>ps\<close>). Each settlement is
  stored at the index of its promise; the result is delivered once every slot is filled,
  and never (\<open>None\<close>) when some promise does not settle.
\<close>

definition settleAt :: "'a list \<Rightarrow> 'a option list \<Rightarrow> nat \<Rightarrow> 'a option list" where
  "settleAt ps slots i = (if i < length ps then slots[i := Some (ps ! i)] else slots)"

definition allSettled :: "nat list \<Rightarrow> 'a list \<Rightarrow> 'a list option" where
  "allSettled completion ps =
     (let slots = foldl (settleAt ps) (replicate (length ps) None) completion
      in if list_all (\<lambda>v. v \<noteq> None) slots then Some (map the slots) else None)"

definition renderAll ::
  "nat list \<Rightarrow> (string \<Rightarrow> 'b tab) \<Rightarrow> string list \<Rightarrow> 'b settled list option"
where
  "renderAll completion browser links =
     allSettled completion (map (generatePDFForPage browser) links)"

section \<open>Output assembler\<close>

fun isFulfilled :: "'b settled \<Rightarrow> bool" where
  "isFulfilled (Fulfilled v) = True"
| "isFulfilled Rejected = False"

fun settledValue :: "'b settled \<Rightarrow> (string \<times> 'b) option" where
  "settledValue (Fulfilled v) = v"
| "settledValue Rejected = None"

text \<open>
  \<open>results.filter(r => r.status === 'fulfilled').map(r => r.value).filter(r => r !== null)\<close>
\<close>

definition pdfResults :: "'b settled list \<Rightarrow> (string \<times> 'b) list" where
  "pdfResults results =
     map the (filter (\<lambda>v. v \<noteq> None) (map settledValue (filter isFulfilled results)))"

text \<open>
  The merge loop. A document is the list of its pages; \<open>load\<close> is \<open>PDFDocument.load\<close>
  followed by reading all pages (\<open>None\<close> where it rejects). Every page of the loaded
  document is appended, in the document's order.
\<close>

fun addPdfs :: "('b \<Rightarrow> 'p list option) \<Rightarrow> 'p list \<Rightarrow> (string \<times> 'b) list \<Rightarrow> error + 'p list" where
  "addPdfs load pdfDoc [] = Inr pdfDoc"
| "addPdfs load pdfDoc ((url, buffer) # rest) =
     (case load buffer of
        None \<Rightarrow> Inl PDFLoadError
      | Some copiedPages \<Rightarrow> addPdfs load (pdfDoc @ copiedPages) rest)"

datatype ('b, 'p) pdf_output = Combined "'p list" | Separate "(string \<times> 'b) list"

definition assemble ::
  "('b \<Rightarrow> 'p list option) \<Rightarrow> bool \<Rightarrow> 'b settled list \<Rightarrow> error + ('b, 'p) pdf_output"
where
  "assemble load separate results =
     (if pdfResults results = [] then Inl NoPDFsGenerated
      else if \<not> separate
      then (case addPdfs load [] (pdfResults results) of
              Inl e \<Rightarrow> Inl e
            | Inr pdfDoc \<Rightarrow> Inr (Combined pdfDoc))
      else Inr (Separate (pdfResults results)))"

text \<open>
  The pages that rendered, each with its URL, in the order of the links; and the pages of
  a rendered document.
\<close>

definition renderSucceeds :: "(string \<Rightarrow> 'b tab) \<Rightarrow> string \<Rightarrow> bool" where
  "renderSucceeds browser link = (settledValue (generatePDFForPage browser link) \<noteq> None)"

definition successes :: "(string \<Rightarrow> 'b tab) \<Rightarrow> string list \<Rightarrow> (string \<times> 'b) list" where
  "successes browser links =
     List.map_filter (\<lambda>link. settledValue (generatePDFForPage browser link)) links"

definition pagesOf :: "('b \<Rightarrow> 'p list option) \<Rightarrow> 'b \<Rightarrow> 'p list" where
  "pagesOf load buffer = (case load buffer of None \<Rightarrow> [] | Some pages \<Rightarrow> pages)"

definition allLoad :: "('b \<Rightarrow> 'p list option) \<Rightarrow> (string \<times> 'b) list \<Rightarrow> bool" where
  "allLoad load results = list_all (\<lambda>(url, buffer). load buffer \<noteq> None) results"

section \<open>The pipeline\<close>

text \<open>Everything outside the program that \<open>generatePDF\<close> and \<open>main\<close> depend on.\<close>

record ('b, 'p) world =
  launchOk :: bool                          \<comment> \<open>\<open>useBrowserContext\<close> resolves\<close>
  cpus :: nat                               \<comment> \<open>\<open>cpus().length\<close>\<close>
  site :: "string \<Rightarrow> fetch_outcome"     \<comment> \<open>the browser during the crawl\<close>
  tabs :: "string \<Rightarrow> 'b tab"              \<comment> \<open>the browser during rendering\<close>
  settleOrder :: "nat list"                 \<comment> \<open>the order in which the render tasks settle\<close>
  loadPdf :: "'b \<Rightarrow> 'p list option"       \<comment> \<open>\<open>PDFDocument.load\<close> and the pages of the result\<close>
  ensureDirOk :: bool
  writeFileOk :: "string \<Rightarrow> bool"           \<comment> \<open>by the URL whose slug names the file\<close>

text \<open>
  \<open>generatePDF\<close>. \<open>pLimit(concurrentLimit)\<close> throws unless the limit is at least one.
  The result is \<open>None\<close> when the crawl loop or the wait for the render tasks never ends.
\<close>

definition generatePDF ::
  "('b, 'p) world \<Rightarrow> string \<Rightarrow> (string \<Rightarrow> bool) \<Rightarrow> nat \<Rightarrow> bool \<Rightarrow> (error + ('b, 'p) pdf_output) option"
where
  "generatePDF w url test concurrentLimit separate =
     (if concurrentLimit = 0 then Some (Inl LimitTypeError)
      else
        case crawl (site w) test url of
          None \<Rightarrow> None
        | Some (Inl e) \<Rightarrow> Some (Inl e)
        | Some (Inr st) \<Rightarrow>
            (case renderAll (settleOrder w) (tabs w) (uniqueSubLinks url (crawledUrls st)) of
               None \<Rightarrow> None
             | Some results \<Rightarrow> Some (assemble (loadPdf w) separate results)))"

section \<open>Regular expressions\<close>

text \<open>
  \<open>RegExp\<close> belongs to the platform. It enters the model as a parameter
  \<open>RegExp_new :: string \<Rightarrow> (string \<Rightarrow> bool) option\<close>: \<open>new RegExp(src)\<close> throws a
  \<open>SyntaxError\<close> (\<open>None\<close>) or yields a regular expression, given by its \<open>test\<close> method.
  No flags are ever passed, and \<open>new RegExp(r.source)\<close> is taken to behave as \<open>r\<close>.

  What \<open>RegExp\<close> does is fixed here on a fragment of the pattern language only:
  a leading \<open>^\<close> followed by terms, a term being one character that is not a syntax
  character, or a dot, with an optional quantifier \<open>*\<close>, \<open>+\<close> or \<open>?\<close>, itself
  optionally followed by the lazy mark \<open>?\<close>. A quantifier where an atom is expected is the
  syntax error "nothing to repeat". The other syntax characters put a pattern outside the
  fragment, and nothing is said about it.
\<close>

type_synonym regexp_new = "string \<Rightarrow> (string \<Rightarrow> bool) option"

datatype atom = Literal char | AnyChar

datatype quantifier = Once | Optional | ZeroOrMore | OneOrMore

datatype token = TAtom atom | TQuantifier quantifier | TOther

definition token :: "char \<Rightarrow> token" where
  "token c =
     (if c = CHR ''.'' then TAtom AnyChar
      else if c = CHR ''*'' then TQuantifier ZeroOrMore
      else if c = CHR ''+'' then TQuantifier OneOrMore
      else if c = CHR ''?'' then TQuantifier Optional
      else if c \<in> {CHR ''^'', CHR ''$'', CHR 0x5C, CHR ''('', CHR '')'', CHR ''['', CHR '']'',
                    CHR ''{'', CHR ''}'', CHR ''|''} then TOther
      else TAtom (Literal c))"

datatype parse = Parsed "(atom \<times> quantifier) list" | NothingToRepeat | NotInFragment

fun addTerm :: "atom \<times> quantifier \<Rightarrow> parse \<Rightarrow> parse" where
  "addTerm t (Parsed ts) = Parsed (t # ts)"
| "addTerm t NothingToRepeat = NothingToRepeat"
| "addTerm t NotInFragment = NotInFragment"

fun parseTerms :: "token list \<Rightarrow> parse" where
  "parseTerms [] = Parsed []"
| "parseTerms (TOther # ts) = NotInFragment"
| "parseTerms (TQuantifier q # ts) = NothingToRepeat"
| "parseTerms (TAtom a # TQuantifier q # TQuantifier Optional # ts) = addTerm (a, q) (parseTerms ts)"
| "parseTerms (TAtom a # TQuantifier q # ts) = addTerm (a, q) (parseTerms ts)"
| "parseTerms (TAtom a # ts) = addTerm (a, Once) (parseTerms ts)"

definition parseRegExp :: "string \<Rightarrow> parse" where
  "parseRegExp src =
     (case src of
        [] \<Rightarrow> NotInFragment
      | c # rest \<Rightarrow> if c = CHR ''^'' then parseTerms (map token rest) else NotInFragment)"

text \<open>A dot matches every character but a line terminator.\<close>

fun atomMatches :: "atom \<Rightarrow> char \<Rightarrow> bool" where
  "atomMatches (Literal c) d = (c = d)"
| "atomMatches AnyChar d = (d \<noteq> CHR 0x0A \<and> d \<noteq> CHR 0x0D)"

text \<open>
  \<open>test\<close> of a pattern anchored by \<open>^\<close>: some prefix of the string matches the terms.
\<close>

fun matchesPrefix :: "(atom \<times> quantifier) list \<Rightarrow> string \<Rightarrow> bool" where
  "matchesPrefix [] s = True"
| "matchesPrefix ((a, Once) # ts) [] = False"
| "matchesPrefix ((a, Once) # ts) (c # s) = (atomMatches a c \<and> matchesPrefix ts s)"
| "matchesPrefix ((a, Optional) # ts) [] = matchesPrefix ts []"
| "matchesPrefix ((a, Optional) # ts) (c # s) =
     (matchesPrefix ts (c # s) \<or> (atomMatches a c \<and> matchesPrefix ts s))"
| "matchesPrefix ((a, ZeroOrMore) # ts) [] = matchesPrefix ts []"
| "matchesPrefix ((a, ZeroOrMore) # ts) (c # s) =
     (matchesPrefix ts (c # s) \<or> (atomMatches a c \<and> matchesPrefix ((a, ZeroOrMore) # ts) s))"
| "matchesPrefix ((a, OneOrMore) # ts) [] = False"
| "matchesPrefix ((a, OneOrMore) # ts) (c # s) =
     (atomMatches a c \<and> matchesPrefix ((a, ZeroOrMore) # ts) s)"

definition RegExp_conforms :: "regexp_new \<Rightarrow> bool" where
  "RegExp_conforms RegExp_new =
     (\<forall>src. case parseRegExp src of
              Parsed ts \<Rightarrow> RegExp_new src = Some (matchesPrefix ts)
            | NothingToRepeat \<Rightarrow> RegExp_new src = None
            | NotInFragment \<Rightarrow> True)"

text \<open>
  One constructor that conforms: it refuses every pattern outside the fragment. It only
  shows that conformance can be met.
\<close>

definition fragmentRegExp :: regexp_new where
  "fragmentRegExp src =
     (case parseRegExp src of Parsed ts \<Rightarrow> Some (matchesPrefix ts) | _ \<Rightarrow> None)"

section \<open>main\<close>

text \<open>
  The \<open>urlPattern\<close> argument: \<open>undefined\<close>, a string, or a \<open>RegExp\<close> given by its source.
\<close>

datatype url_pattern = NoPattern | PatternString string | PatternRegExp string

text \<open>
  \<open>urlPattern || new RegExp(...)\<close>, the default pattern being \<open>^\<close> followed by \<open>mainURL\<close>:
  \<open>undefined\<close> and the empty string are falsy.
\<close>

fun usesDefault :: "url_pattern \<Rightarrow> bool" where
  "usesDefault NoPattern = True"
| "usesDefault (PatternString s) = (s = [])"
| "usesDefault (PatternRegExp src) = False"

definition defaultPatternSource :: "string \<Rightarrow> string" where
  "defaultPatternSource mainURL = CHR ''^'' # mainURL"

fun patternSource :: "url_pattern \<Rightarrow> string \<Rightarrow> string" where
  "patternSource NoPattern mainURL = defaultPatternSource mainURL"
| "patternSource (PatternString s) mainURL = (if s = [] then defaultPatternSource mainURL else s)"
| "patternSource (PatternRegExp src) mainURL = src"

text \<open>
  \<open>pattern instanceof RegExp ? pattern : new RegExp(pattern)\<close>, inside the \<open>try\<close>:
  only a non-empty pattern string is compiled here.
\<close>

fun compileFails :: "regexp_new \<Rightarrow> url_pattern \<Rightarrow> bool" where
  "compileFails RegExp_new (PatternString s) = (s \<noteq> [] \<and> RegExp_new s = None)"
| "compileFails RegExp_new p = False"

text \<open>
  \<open>new RegExp(pattern).test(resolvedUrl)\<close> inside the page, where \<open>pattern\<close> is
  \<open>urlPattern.source\<close>; an exception there is caught and counts as no match.
\<close>

definition inPageTest :: "regexp_new \<Rightarrow> string \<Rightarrow> string \<Rightarrow> bool" where
  "inPageTest RegExp_new src resolvedUrl =
     (case RegExp_new src of None \<Rightarrow> False | Some test \<Rightarrow> test resolvedUrl)"

datatype ('b, 'p) pdf_file = PageFile 'b | MergedFile "'p list"

text \<open>
  What a run of \<open>main\<close> that resolves has done. A file is listed under the URL whose
  \<open>generateSlug\<close> names it.
\<close>

record ('b, 'p) report =
  errorReported :: "error option"           \<comment> \<open>\<open>console.error("Error generating PDF:", error)\<close>\<close>
  closeCalled :: bool                       \<comment> \<open>\<open>ctx?.browser.close()\<close> found a context\<close>
  filesWritten :: "(string \<times> ('b, 'p) pdf_file) list"

datatype ('b, 'p) main_result = Throws error | Resolves "('b, 'p) report"

fun filesOf :: "string \<Rightarrow> ('b, 'p) pdf_output \<Rightarrow> (string \<times> ('b, 'p) pdf_file) list" where
  "filesOf mainURL (Combined pdfDoc) = [(mainURL, MergedFile pdfDoc)]"
| "filesOf mainURL (Separate results) = map (\<lambda>(url, buffer). (url, PageFile buffer)) results"

fun writeFiles ::
  "(string \<Rightarrow> bool) \<Rightarrow> (string \<times> 'f) list \<Rightarrow> (string \<times> 'f) list \<times> error option"
where
  "writeFiles ok [] = ([], None)"
| "writeFiles ok ((url, f) # rest) =
     (if ok url
      then (case writeFiles ok rest of (written, e) \<Rightarrow> ((url, f) # written, e))
      else ([], Some FsError))"

text \<open>The \<open>try\<close>, \<open>catch\<close> and \<open>finally\<close> of \<open>main\<close>.\<close>

definition tryBlock ::
  "regexp_new \<Rightarrow> ('b, 'p) world \<Rightarrow> string \<Rightarrow> url_pattern \<Rightarrow> bool \<Rightarrow> ('b, 'p) report option"
where
  "tryBlock RegExp_new w mainURL urlPattern separate =
     (if \<not> launchOk w
      then Some \<lparr>errorReported = Some LaunchError, closeCalled = False, filesWritten = []\<rparr>
      else if compileFails RegExp_new urlPattern
      then Some \<lparr>errorReported = Some RegExpSyntaxError, closeCalled = True, filesWritten = []\<rparr>
      else
        case generatePDF w mainURL (inPageTest RegExp_new (patternSource urlPattern mainURL))
               (cpus w) separate of
          None \<Rightarrow> None
        | Some (Inl e) \<Rightarrow>
            Some \<lparr>errorReported = Some e, closeCalled = True, filesWritten = []\<rparr>
        | Some (Inr result) \<Rightarrow>
            if \<not> ensureDirOk w
            then Some \<lparr>errorReported = Some FsError, closeCalled = True, filesWritten = []\<rparr>
            else (case writeFiles (writeFileOk w) (filesOf mainURL result) of
                    (written, e) \<Rightarrow>
                      Some \<lparr>errorReported = e, closeCalled = True, filesWritten = written\<rparr>))"

text \<open>
  \<open>main\<close>. The check of \<open>mainURL\<close> and the default pattern come before the \<open>try\<close>.
  \<open>mainURL\<close> is \<open>None\<close> for \<open>undefined\<close>.
\<close>

definition main ::
  "regexp_new \<Rightarrow> ('b, 'p) world \<Rightarrow> string option \<Rightarrow> url_pattern \<Rightarrow> bool \<Rightarrow>
   ('b, 'p) main_result option"
where
  "main RegExp_new w mainURL urlPattern separate =
     (case mainURL of
        None \<Rightarrow> Some (Throws MainUrlRequired)
      | Some url \<Rightarrow>
          if url = [] then Some (Throws MainUrlRequired)
          else if usesDefault urlPattern \<and> RegExp_new (defaultPatternSource url) = None
          then Some (Throws RegExpSyntaxError)
          else map_option Resolves (tryBlock RegExp_new w url urlPattern separate))"

section \<open>Example sites\<close>

text \<open>Small sites on which the pipeline is run below.\<close>

definition siteTest :: "string \<Rightarrow> bool" where
  "siteTest resolvedUrl = startsWith resolvedUrl ''https://s.t''"

text \<open>Three pages that link to each other in a cycle, with links that are out of scope.\<close>

definition cyclicSite :: "string \<Rightarrow> fetch_outcome" where
  "cyclicSite u =
     (if u = ''https://s.t''
      then Anchors [Some ''https://s.t/a'', Some ''https://s.t/#top'', Some ''mailto:x@y.z'',
                    None, Some ''https://o.t/x'']
      else if u = ''https://s.t/a''
      then Anchors [Some ''https://s.t/'', Some ''https://s.t/a/'', Some ''https://s.t/b'']
      else if u = ''https://s.t/b''
      then Anchors [Some ''https://s.t/a'']
      else Anchors [])"

text \<open>A seed page with one link; no page links back to the seed.\<close>

definition plainSite :: "string \<Rightarrow> fetch_outcome" where
  "plainSite u = (if u = ''https://s.t'' then Anchors [Some ''https://s.t/a''] else Anchors [])"

text \<open>A page with two links that differ in the number of trailing slashes.\<close>

definition doubleSlashSite :: "string \<Rightarrow> fetch_outcome" where
  "doubleSlashSite u =
     (if u = ''https://s.t''
      then Anchors [Some ''https://s.t/p//'', Some ''https://s.t/p/'']
      else Anchors [])"

text \<open>
  A seed that ends in a slash, with the pattern "starts with the seed"; the seed page
  links to itself with and without the slash.
\<close>

definition docsTest :: "string \<Rightarrow> bool" where
  "docsTest resolvedUrl = startsWith resolvedUrl ''https://s.t/docs/''"

definition docsSite :: "string \<Rightarrow> fetch_outcome" where
  "docsSite u =
     (if u = ''https://s.t/docs/''
      then Anchors [Some ''https://s.t/docs/'', Some ''https://s.t/docs'']
      else Anchors [])"

text \<open>A seed page with two links, the first of which cannot be loaded.\<close>

definition brokenLinkSite :: "string \<Rightarrow> fetch_outcome" where
  "brokenLinkSite u =
     (if u = ''https://s.t''
      then Anchors [Some ''https://s.t/a'', Some ''https://s.t/b'']
      else if u = ''https://s.t/a'' then FetchThrows
      else Anchors [])"

text \<open>Three links to render; the second one fails.\<close>

definition threeLinks :: "string list" where
  "threeLinks = [''https://s.t'', ''https://s.t/a'', ''https://s.t/b'']"

definition exampleTabs :: "string \<Rightarrow> string tab" where
  "exampleTabs link =
     (if link = ''https://s.t'' then Tab (Some ''pdf-seed'') True
      else if link = ''https://s.t/a'' then Tab None True
      else if link = ''https://s.t/b'' then Tab (Some ''pdf-b'') True
      else NewPageThrows)"

definition exampleLoad :: "string \<Rightarrow> nat list option" where
  "exampleLoad buffer =
     (if buffer = ''pdf-seed'' then Some [1, 2]
      else if buffer = ''pdf-b'' then Some [3]
      else None)"

text \<open>A world in which the browser starts and the files can be written.\<close>

definition exampleWorld :: "(string, nat) world" where
  "exampleWorld =
     \<lparr>launchOk = True, cpus = 4, site = plainSite, tabs = exampleTabs, settleOrder = [1, 0],
      loadPdf = exampleLoad, ensureDirOk = True, writeFileOk = (\<lambda>url. True)\<rparr>"

section \<open>Properties of the normalizer\<close>

lemma startsWith_prefix: "startsWith s t \<longleftrightarrow> prefix t s"
  by (induction s t rule: startsWith.induct) auto

lemma includes_sublist: "includesStr s t \<longleftrightarrow> sublist t s"
  by (induction s) (auto simp: startsWith_prefix sublist_Cons_right)

lemma urlWithoutAnchor_no_hash: "CHR ''#'' \<notin> set (urlWithoutAnchor url)"
  unfolding urlWithoutAnchor_def by (induction url) auto

lemma urlWithoutAnchor_fixed:
  "CHR ''#'' \<notin> set s \<Longrightarrow> urlWithoutAnchor s = s"
  unfolding urlWithoutAnchor_def by (induction s) auto

lemma normalizeURL_no_hash: "CHR ''#'' \<notin> set (normalizeURL url)"
  using urlWithoutAnchor_no_hash [of url]
  by (auto simp: normalizeURL_def dest: in_set_butlastD)

lemma normalizeURL_prefix: "prefix (normalizeURL url) url"
proof -
  have a: "prefix (urlWithoutAnchor url) url"
    unfolding urlWithoutAnchor_def by (metis prefixI takeWhile_dropWhile_id)
  have b: "prefix (butlast (urlWithoutAnchor url)) (urlWithoutAnchor url)"
    by (simp add: prefixeq_butlast)
  show ?thesis
    using a b by (auto simp: normalizeURL_def intro: prefix_order.trans)
qed

lemma normalizeURL_twice:
  "normalizeURL (normalizeURL url) =
     (if endsWithSlash (normalizeURL url) then butlast (normalizeURL url) else normalizeURL url)"
  using urlWithoutAnchor_fixed [OF normalizeURL_no_hash [of url]]
  by (simp add: normalizeURL_def [of "normalizeURL url"])

lemma endsWithSlash_butlast:
  "endsWithSlash s \<Longrightarrow> endsWithSlash (butlast s) \<longleftrightarrow> suffix ''//'' s"
proof -
  assume "endsWithSlash s"
  then obtain r where s: "s = r @ ''/''"
    unfolding endsWithSlash_def by (metis append_butlast_last_id)
  have "endsWithSlash r \<longleftrightarrow> suffix ''//'' (r @ ''/'')"
  proof (cases r rule: rev_cases)
    case Nil
    then show ?thesis by (simp add: endsWithSlash_def suffix_def)
  next
    case (snoc q c)
    then show ?thesis by (auto simp: endsWithSlash_def suffix_def)
  qed
  then show ?thesis using s by simp
qed

lemma butlast_neq: "s \<noteq> [] \<Longrightarrow> butlast s \<noteq> s"
  by (cases s rule: rev_cases) auto

lemma not_endsWithSlash_no_suffix:
  "\<not> endsWithSlash s \<Longrightarrow> \<not> suffix ''//'' s"
  by (auto simp: endsWithSlash_def suffix_def)

text \<open>
  C7 (as stated): normalization is idempotent, \<open>normalize(normalize(u)) = normalize(u)\<close>
  for every URL string \<open>u\<close>. This fails: only one trailing slash is removed, so a URL
  ending in two slashes loses one slash at each application.
\<close>

theorem normalizeURL_idempotent_counterexample:
  "normalizeURL (normalizeURL ''https://a.com//'') \<noteq> normalizeURL ''https://a.com//''"
  by (simp add: normalizeURL_def urlWithoutAnchor_def endsWithSlash_def)

text \<open>
  C7 (amended): \<open>normalize(normalize(u)) = normalize(u)\<close> holds exactly for the URLs
  \<open>u\<close> whose part before the first \<open>#\<close> does not end in two slashes.
\<close>

theorem normalizeURL_idempotent_iff:
  "normalizeURL (normalizeURL url) = normalizeURL url
     \<longleftrightarrow> \<not> suffix ''//'' (urlWithoutAnchor url)"
proof (cases "endsWithSlash (urlWithoutAnchor url)")
  case True
  then have n: "normalizeURL url = butlast (urlWithoutAnchor url)"
    by (simp add: normalizeURL_def)
  have "endsWithSlash (normalizeURL url) \<longleftrightarrow> suffix ''//'' (urlWithoutAnchor url)"
    using endsWithSlash_butlast [OF True] n by simp
  moreover have "endsWithSlash (normalizeURL url) \<Longrightarrow> butlast (normalizeURL url) \<noteq> normalizeURL url"
    by (simp add: endsWithSlash_def butlast_neq)
  ultimately show ?thesis
    by (auto simp: normalizeURL_twice)
next
  case False
  then have n: "normalizeURL url = urlWithoutAnchor url"
    by (simp add: normalizeURL_def)
  have "normalizeURL (normalizeURL url) = normalizeURL url"
    using False normalizeURL_twice [of url] by (simp add: n)
  then show ?thesis
    using not_endsWithSlash_no_suffix [OF False] by simp
qed

theorem normalizeURL_idempotent_iff_witness:
  "normalizeURL (normalizeURL ''https://a.com/p/#frag'') = normalizeURL ''https://a.com/p/#frag''
   \<and> \<not> suffix ''//'' (urlWithoutAnchor ''https://a.com/p/#frag'')"
  using normalizeURL_idempotent_iff [of "''https://a.com/p/#frag''"]
  by (simp add: urlWithoutAnchor_def suffix_def)

section \<open>The crawl loop\<close>

lemma set_enqueue:
  "set (enqueue crawled q link) =
     (if normalizeURL link \<in> set crawled then set q else insert (normalizeURL link) (set q))"
  by (auto simp: enqueue_def Let_def)

lemma distinct_enqueue: "distinct q \<Longrightarrow> distinct (enqueue crawled q link)"
  by (auto simp: enqueue_def Let_def)

lemma enqueue_all_distinct:
  "distinct q \<Longrightarrow> distinct (foldl (enqueue crawled) q links)"
  by (induction links arbitrary: q) (simp_all add: distinct_enqueue)

lemma set_enqueue_all:
  "set (foldl (enqueue crawled) q links) =
     set q \<union> (normalizeURL ` set links - set crawled)"
  by (induction links arbitrary: q) (auto simp: set_enqueue)

lemma crawlPage_visited:
  "currentUrl \<in> set (crawledUrls st) \<Longrightarrow> crawlPage fetch test st currentUrl = Inr st"
  by (simp add: crawlPage_def)

lemma crawlPage_fresh:
  "currentUrl \<notin> set (crawledUrls st) \<Longrightarrow>
   crawlPage fetch test st currentUrl =
     (case fetch currentUrl of
        FetchThrows \<Rightarrow> Inl NavigationError
      | Anchors anchors \<Rightarrow>
          Inr \<lparr>crawledUrls = crawledUrls st @ [currentUrl],
               queue = foldl (enqueue (crawledUrls st @ [currentUrl])) (queue st)
                         (subLinks test anchors)\<rparr>)"
  by (simp add: crawlPage_def set_add_def Let_def)

lemma crawlStep_inv:
  assumes "crawlStep fetch test st st'" and "crawlInv st"
  shows "crawlInv st'"
  using assms
proof (induction rule: crawlStep.induct)
  case (round st currentUrl rest st')
  from round(1,3) have d: "distinct (crawledUrls st)" "distinct rest"
    "currentUrl \<notin> set rest" "currentUrl \<notin> set (crawledUrls st)"
    "set rest \<inter> set (crawledUrls st) = {}"
    by (auto simp: crawlInv_def)
  from round(2) d(4) obtain anchors where
    st': "st' = \<lparr>crawledUrls = crawledUrls st @ [currentUrl],
                 queue = foldl (enqueue (crawledUrls st @ [currentUrl])) rest
                           (subLinks test anchors)\<rparr>"
    by (cases "fetch currentUrl") (auto simp: crawlPage_fresh)
  show ?case
    using d by (auto simp: st' crawlInv_def enqueue_all_distinct set_enqueue_all)
qed

lemma crawlReaches_inv: "crawlReaches fetch test url st \<Longrightarrow> crawlInv st"
proof (induction rule: crawlReaches.induct)
  case start
  show ?case by (simp add: crawlInv_def initial_def)
next
  case (step st st')
  then show ?case by (blast intro: crawlStep_inv)
qed

lemma crawlLoop_done: "queue st = [] \<Longrightarrow> crawlLoop fetch test st = Some (Inr st)"
  by (subst crawlLoop.simps) simp

lemma crawlLoop_error:
  "queue st = currentUrl # rest \<Longrightarrow>
   crawlPage fetch test (st\<lparr>queue := rest\<rparr>) currentUrl = Inl e \<Longrightarrow>
   crawlLoop fetch test st = Some (Inl e)"
  by (subst crawlLoop.simps) simp

lemma crawlLoop_round:
  "queue st = currentUrl # rest \<Longrightarrow>
   crawlPage fetch test (st\<lparr>queue := rest\<rparr>) currentUrl = Inr st' \<Longrightarrow>
   crawlLoop fetch test st = crawlLoop fetch test st'"
  by (subst crawlLoop.simps) simp

lemma linkClosedD:
  "linkClosed fetch test us \<Longrightarrow> u \<in> set us \<Longrightarrow> fetch u = Anchors anchors \<Longrightarrow>
   normalizeURL ` set (subLinks test anchors) \<subseteq> set us"
  by (auto simp: linkClosed_def list_all_iff anchorsOf_def)

lemma crawlLoop_terminates:
  fixes us :: "string list"
  defines "U \<equiv> set us"
  assumes closed: "linkClosed fetch test us"
  shows "set (queue st) \<subseteq> U \<Longrightarrow>
         \<exists>r. crawlLoop fetch test st = Some r \<and>
             ((\<forall>u \<in> U. fetch u \<noteq> FetchThrows) \<longrightarrow> (\<exists>final. r = Inr final))"
proof (induction st rule: wf_induct_rule [OF wf_measures
         [of "[\<lambda>st. card (U - set (crawledUrls st)), \<lambda>st. length (queue st)]"]])
  case (1 st)
  show ?case
  proof (cases "queue st")
    case Nil
    then show ?thesis by (simp add: crawlLoop_done)
  next
    case (Cons currentUrl rest)
    then have inU: "currentUrl \<in> U" and restU: "set rest \<subseteq> U"
      using "1.prems" by auto
    show ?thesis
    proof (cases "crawlPage fetch test (st\<lparr>queue := rest\<rparr>) currentUrl")
      case (Inl e)
      then have "fetch currentUrl = FetchThrows"
        by (cases "fetch currentUrl") (auto simp: crawlPage_def Let_def split: if_splits)
      then show ?thesis using Cons Inl inU by (auto simp: crawlLoop_error)
    next
      case (Inr st')
      have less: "(st', st) \<in> measures [\<lambda>st. card (U - set (crawledUrls st)), \<lambda>st. length (queue st)]"
        and sub: "set (queue st') \<subseteq> U"
      proof -
        show "(st', st) \<in> measures [\<lambda>st. card (U - set (crawledUrls st)), \<lambda>st. length (queue st)]"
        proof (cases "currentUrl \<in> set (crawledUrls st)")
          case True
          then have "st' = st\<lparr>queue := rest\<rparr>" using Inr by (simp add: crawlPage_visited)
          then show ?thesis using Cons by simp
        next
          case False
          then have c: "crawledUrls st' = crawledUrls st @ [currentUrl]"
            using Inr by (cases "fetch currentUrl") (auto simp: crawlPage_fresh)
          have "U - set (crawledUrls st') \<subset> U - set (crawledUrls st)"
            using False inU c by auto
          then have "card (U - set (crawledUrls st')) < card (U - set (crawledUrls st))"
            by (intro psubset_card_mono) (auto simp: U_def)
          then show ?thesis by simp
        qed
        show "set (queue st') \<subseteq> U"
        proof (cases "currentUrl \<in> set (crawledUrls st)")
          case True
          then have "st' = st\<lparr>queue := rest\<rparr>" using Inr by (simp add: crawlPage_visited)
          then show ?thesis using restU by simp
        next
          case False
          then obtain anchors where f: "fetch currentUrl = Anchors anchors"
            and q: "queue st' = foldl (enqueue (crawledUrls st @ [currentUrl])) rest
                                  (subLinks test anchors)"
            using Inr by (cases "fetch currentUrl") (auto simp: crawlPage_fresh)
          have "normalizeURL ` set (subLinks test anchors) \<subseteq> U"
            using linkClosedD [OF closed _ f] inU by (simp add: U_def)
          then show ?thesis using restU by (auto simp: q set_enqueue_all)
        qed
      qed
      from "1.IH" [OF less sub] show ?thesis
        using Cons Inr by (simp add: crawlLoop_round)
    qed
  qed
qed

lemma crawlLoop_reaches_aux:
  assumes "crawlLoop fetch test st = Some r"
  shows "case r of Inl e \<Rightarrow> True
         | Inr st' \<Rightarrow> (crawlStep fetch test)\<^sup>*\<^sup>* st st' \<and> queue st' = []"
proof (rule crawlLoop.raw_induct [where P = "\<lambda>fetch test st r. case r of Inl e \<Rightarrow> True
         | Inr st' \<Rightarrow> (crawlStep fetch test)\<^sup>*\<^sup>* st st' \<and> queue st' = []", OF _ assms],
       goal_cases)
  case (1 loop fetch test st r)
  show ?case
  proof (cases "queue st")
    case Nil
    then show ?thesis using 1(2) by auto
  next
    case (Cons currentUrl rest)
    show ?thesis
    proof (cases "crawlPage fetch test (st\<lparr>queue := rest\<rparr>) currentUrl")
      case (Inl e)
      then have "r = Inl e" using 1(2) Cons by simp
      then show ?thesis by simp
    next
      case (Inr st')
      then have rec: "loop fetch test st' = Some r" using 1(2) Cons by simp
      note ih = 1(1) [OF rec]
      have "crawlStep fetch test st st'" using Cons Inr by (rule crawlStep.round)
      then show ?thesis using ih by (cases r) (auto intro: converse_rtranclp_into_rtranclp)
    qed
  qed
qed

lemma crawlReaches_steps:
  "(crawlStep fetch test)\<^sup>*\<^sup>* st st' \<Longrightarrow> crawlReaches fetch test url st \<Longrightarrow>
   crawlReaches fetch test url st'"
  by (induction rule: rtranclp_induct) (auto intro: crawlReaches.step)

lemma crawl_result_reached:
  "crawl fetch test url = Some (Inr st) \<Longrightarrow> crawlReaches fetch test url st \<and> queue st = []"
  using crawlLoop_reaches_aux [of fetch test "initial url" "Inr st"]
  by (auto simp: crawl_def intro: crawlReaches_steps crawlReaches.start)

lemma crawlStep_seedFirst:
  "crawlStep fetch test st st' \<Longrightarrow> seedFirst url st \<Longrightarrow> seedFirst url st'"
proof (induction rule: crawlStep.induct)
  case (round st currentUrl rest st')
  show ?case
  proof (cases "currentUrl \<in> set (crawledUrls st)")
    case True
    then have "st' = st\<lparr>queue := rest\<rparr>" using round(2) by (simp add: crawlPage_visited)
    then show ?thesis using round(3) True by (auto simp: seedFirst_def)
  next
    case False
    then have c: "crawledUrls st' = crawledUrls st @ [currentUrl]"
      using round(2) by (cases "fetch currentUrl") (auto simp: crawlPage_fresh)
    show ?thesis using round(1,3) by (cases "crawledUrls st") (auto simp: seedFirst_def c)
  qed
qed

lemma crawlReaches_seedFirst: "crawlReaches fetch test url st \<Longrightarrow> seedFirst url st"
proof (induction rule: crawlReaches.induct)
  case start
  show ?case by (simp add: seedFirst_def initial_def)
next
  case (step st st')
  then show ?case by (blast intro: crawlStep_seedFirst)
qed

lemma crawl_terminates:
  assumes "url \<in> set us" and "linkClosed fetch test us"
  shows "\<exists>r. crawl fetch test url = Some r \<and>
             ((\<forall>u \<in> set us. fetch u \<noteq> FetchThrows) \<longrightarrow> (\<exists>final. r = Inr final))"
  unfolding crawl_def
  using crawlLoop_terminates [OF assms(2), of "initial url"] assms(1)
  by (simp add: initial_def)

lemma crawl_cyclicSite:
  "crawl cyclicSite siteTest ''https://s.t'' =
     Some (Inr \<lparr>crawledUrls = [''https://s.t'', ''https://s.t/a'', ''https://s.t/b''], queue = []\<rparr>)"
  by code_simp

lemma linkClosed_cyclicSite:
  "linkClosed cyclicSite siteTest [''https://s.t'', ''https://s.t/a'', ''https://s.t/b'']"
  by code_simp

lemma reaches_cyclicSite:
  "crawlReaches cyclicSite siteTest ''https://s.t''
     \<lparr>crawledUrls = [''https://s.t''], queue = [''https://s.t/a'']\<rparr>"
proof -
  have "crawlPage cyclicSite siteTest (initial ''https://s.t''\<lparr>queue := []\<rparr>) ''https://s.t'' =
          Inr \<lparr>crawledUrls = [''https://s.t''], queue = [''https://s.t/a'']\<rparr>"
    by code_simp
  then have "crawlStep cyclicSite siteTest (initial ''https://s.t'')
          \<lparr>crawledUrls = [''https://s.t''], queue = [''https://s.t/a'']\<rparr>"
    by (intro crawlStep.round [where currentUrl = "''https://s.t''" and rest = "[]"])
       (simp_all add: initial_def)
  then show ?thesis by (rule crawlReaches.step [OF crawlReaches.start])
qed

text \<open>
  C2: a page whose fetch fails during the crawl contributes no links, and the crawl goes
  on with the remaining queued URLs. The code does otherwise: \<open>crawlPage\<close> has no
  \<open>catch\<close>, so the rejection leaves the loop and \<open>generatePDF\<close>. On a seed page
  with the links \<open>/a\<close> and \<open>/b\<close>, where \<open>/a\<close> cannot be loaded, the crawl ends with the
  error and \<open>/b\<close> is never visited.
\<close>

theorem crawl_aborts_on_failed_fetch:
  "crawl brokenLinkSite siteTest ''https://s.t'' = Some (Inl NavigationError) \<and>
   generatePDF (exampleWorld\<lparr>site := brokenLinkSite\<rparr>) ''https://s.t'' siteTest 4 False =
     Some (Inl NavigationError)"
  by code_simp

section \<open>Crawl identity, scope and seed inclusion\<close>

lemma set_subLinks:
  "set (subLinks test anchors) = {l. Some l \<in> set anchors \<and> keepLink test l \<and> l \<noteq> []}"
proof -
  have "\<And>a. a \<in> set anchors \<Longrightarrow> Boolean (filterLink test a) \<Longrightarrow>
          Some (the (filterLink test a)) \<in> set anchors \<and> keepLink test (the (filterLink test a))
          \<and> the (filterLink test a) \<noteq> []"
    subgoal for a by (cases a) (auto split: if_splits)
    done
  moreover have "\<And>l. Some l \<in> set anchors \<Longrightarrow> keepLink test l \<Longrightarrow> l \<noteq> [] \<Longrightarrow>
          l \<in> the ` {x \<in> filterLink test ` set anchors. Boolean x}"
    subgoal for l by (rule image_eqI [where x = "Some l"]) (auto intro!: image_eqI [where x = "Some l"])
    done
  ultimately show ?thesis by (auto simp: subLinks_def)
qed

lemma set_extractedLinks:
  "set (extractedLinks fetch crawled) = {l. \<exists>u \<in> set crawled. Some l \<in> set (anchorsOf fetch u)}"
  by (force simp: extractedLinks_def image_iff)

lemma crawlStep_scopeInv:
  "crawlStep fetch test st st' \<Longrightarrow> scopeInv fetch test url st \<Longrightarrow> scopeInv fetch test url st'"
proof (induction rule: crawlStep.induct)
  case (round st currentUrl rest st')
  show ?case
  proof (cases "currentUrl \<in> set (crawledUrls st)")
    case True
    then have "st' = st\<lparr>queue := rest\<rparr>" using round(2) by (simp add: crawlPage_visited)
    then show ?thesis using round(1,3) by (auto simp: scopeInv_def)
  next
    case False
    then obtain anchors where f: "fetch currentUrl = Anchors anchors"
      and st': "st' = \<lparr>crawledUrls = crawledUrls st @ [currentUrl],
                 queue = foldl (enqueue (crawledUrls st @ [currentUrl])) rest
                           (subLinks test anchors)\<rparr>"
      using round(2) by (cases "fetch currentUrl") (auto simp: crawlPage_fresh)
    have mono: "set (extractedLinks fetch (crawledUrls st)) \<subseteq> set (extractedLinks fetch (crawledUrls st'))"
      by (auto simp: set_extractedLinks st')
    have new: "\<And>l. l \<in> set (subLinks test anchors) \<Longrightarrow>
            l \<in> set (extractedLinks fetch (crawledUrls st')) \<and> keepLink test l"
      using f by (auto simp: set_subLinks set_extractedLinks st' anchorsOf_def)
    have old: "\<And>v. v \<in> set (crawledUrls st) \<union> set (queue st) \<Longrightarrow>
            v = url \<or> (\<exists>l \<in> set (extractedLinks fetch (crawledUrls st')). keepLink test l \<and> v = normalizeURL l)"
      using round(3) mono unfolding scopeInv_def by blast
    have members: "set (crawledUrls st') \<union> set (queue st') \<subseteq>
            set (crawledUrls st) \<union> set (queue st) \<union> normalizeURL ` set (subLinks test anchors)"
      using round(1) by (auto simp: st' set_enqueue_all)
    show ?thesis
      unfolding scopeInv_def
    proof
      fix v assume "v \<in> set (crawledUrls st') \<union> set (queue st')"
      then consider "v \<in> set (crawledUrls st) \<union> set (queue st)"
        | "v \<in> normalizeURL ` set (subLinks test anchors)"
        using members by blast
      then show "v = url \<or> (\<exists>l \<in> set (extractedLinks fetch (crawledUrls st')). keepLink test l \<and> v = normalizeURL l)"
      proof cases
        case 1
        then show ?thesis by (rule old)
      next
        case 2
        then show ?thesis using new by blast
      qed
    qed
  qed
qed

lemma crawlReaches_scopeInv: "crawlReaches fetch test url st \<Longrightarrow> scopeInv fetch test url st"
proof (induction rule: crawlReaches.induct)
  case start
  show ?case by (simp add: scopeInv_def initial_def)
next
  case (step st st')
  then show ?case by (blast intro: crawlStep_scopeInv)
qed

lemma includesStr_normalizeURL:
  "includesStr (normalizeURL l) t \<Longrightarrow> includesStr l t"
  unfolding includes_sublist
  using normalizeURL_prefix [of l] by (meson prefix_imp_sublist sublist_order.order.trans)

lemma includesStr_single: "includesStr s [c] \<longleftrightarrow> c \<in> set s"
  by (induction s) auto

lemma keepLink_no_anchor: "keepLink test l \<Longrightarrow> urlWithoutAnchor l = l"
  by (simp add: keepLink_def includesStr_single urlWithoutAnchor_fixed)

lemma normalizeURL_stable:
  assumes "\<not> suffix ''//'' (urlWithoutAnchor url)"
  shows "normalizeURL (normalizeURL url) = normalizeURL url"
proof (cases "endsWithSlash (urlWithoutAnchor url)")
  case True
  then have n: "normalizeURL url = butlast (urlWithoutAnchor url)"
    by (simp add: normalizeURL_def)
  have "\<not> endsWithSlash (butlast (urlWithoutAnchor url))"
    using endsWithSlash_butlast [OF True] assms by simp
  then show ?thesis using normalizeURL_twice [of url] by (simp add: n)
next
  case False
  then have n: "normalizeURL url = urlWithoutAnchor url"
    by (simp add: normalizeURL_def)
  show ?thesis using False normalizeURL_twice [of url] by (simp add: n)
qed

lemma crawlReaches_normalized:
  assumes "crawlReaches fetch test url st" and "normalizeURL url = url"
    and "\<forall>l \<in> set (extractedLinks fetch (crawledUrls st)). keepLink test l \<longrightarrow> \<not> suffix ''//'' l"
    and "v \<in> set (crawledUrls st) \<union> set (queue st)"
  shows "normalizeURL v = v"
proof (cases "v = url")
  case True
  then show ?thesis using assms(2) by simp
next
  case False
  then obtain l where l: "l \<in> set (extractedLinks fetch (crawledUrls st))" "keepLink test l"
    "v = normalizeURL l"
    using crawlReaches_scopeInv [OF assms(1)] assms(4) unfolding scopeInv_def by blast
  have "\<not> suffix ''//'' (urlWithoutAnchor l)"
    using assms(3) l(1,2) by (simp add: keepLink_no_anchor)
  then show ?thesis unfolding l(3) by (rule normalizeURL_stable)
qed

text \<open>
  C1 (amended): when the seed is given in its normalized form and no link that passes the
  filter ends in two slashes, no CrawlTarget, a URL identified by its normalized form, is
  fetched more than once: in every state the loop passes through, the pending queue holds
  no normalized URL twice, the visited set holds none twice (\<open>crawlPage\<close> navigates to a
  URL exactly when it adds it to \<open>crawledUrls\<close>), and no URL of the visited set is in the
  queue. Without these two conditions the same holds of the URLs as strings. On a finite
  link graph, cyclic or not, the crawl terminates; when no page of the graph fails to
  load, it ends with the queue empty.
\<close>

theorem crawl_visits_once_and_terminates:
  "(crawlReaches fetch test url st \<longrightarrow>
      distinct (queue st) \<and> distinct (crawledUrls st) \<and>
      set (queue st) \<inter> set (crawledUrls st) = {} \<and>
      (normalizeURL url = url \<and>
       (\<forall>l \<in> set (extractedLinks fetch (crawledUrls st)). keepLink test l \<longrightarrow> \<not> suffix ''//'' l) \<longrightarrow>
         distinct (map normalizeURL (queue st)) \<and> distinct (map normalizeURL (crawledUrls st)) \<and>
         normalizeURL ` set (queue st) \<inter> normalizeURL ` set (crawledUrls st) = {})) \<and>
   (url \<in> set us \<and> linkClosed fetch test us \<longrightarrow>
      (\<exists>r. crawl fetch test url = Some r) \<and>
      ((\<forall>u \<in> set us. fetch u \<noteq> FetchThrows) \<longrightarrow>
         (\<exists>final. crawl fetch test url = Some (Inr final) \<and> queue final = [])))"
proof (intro conjI impI)
  assume r: "crawlReaches fetch test url st"
  then have inv: "crawlInv st" by (rule crawlReaches_inv)
  show "distinct (queue st)" "distinct (crawledUrls st)"
    "set (queue st) \<inter> set (crawledUrls st) = {}"
    using inv by (simp_all add: crawlInv_def)
  assume h: "normalizeURL url = url \<and>
       (\<forall>l \<in> set (extractedLinks fetch (crawledUrls st)). keepLink test l \<longrightarrow> \<not> suffix ''//'' l)"
  have fixed: "\<And>v. v \<in> set (crawledUrls st) \<union> set (queue st) \<Longrightarrow> normalizeURL v = v"
    using crawlReaches_normalized [OF r] h by blast
  have q: "map normalizeURL (queue st) = queue st"
    and c: "map normalizeURL (crawledUrls st) = crawledUrls st"
    using fixed by (simp_all add: map_idI)
  show "distinct (map normalizeURL (queue st))" "distinct (map normalizeURL (crawledUrls st))"
    using inv by (simp_all add: q c crawlInv_def)
  have "normalizeURL ` set (queue st) = set (queue st)"
    "normalizeURL ` set (crawledUrls st) = set (crawledUrls st)"
    using q c by (metis set_map)+
  then show "normalizeURL ` set (queue st) \<inter> normalizeURL ` set (crawledUrls st) = {}"
    using inv by (simp add: crawlInv_def)
next
  assume g: "url \<in> set us \<and> linkClosed fetch test us"
  then obtain r where r: "crawl fetch test url = Some r"
    and ok: "(\<forall>u \<in> set us. fetch u \<noteq> FetchThrows) \<longrightarrow> (\<exists>final. r = Inr final)"
    using crawl_terminates [of url us fetch test] by blast
  show "\<exists>r. crawl fetch test url = Some r" using r by blast
  assume "\<forall>u \<in> set us. fetch u \<noteq> FetchThrows"
  then show "\<exists>final. crawl fetch test url = Some (Inr final) \<and> queue final = []"
    using r ok crawl_result_reached [of fetch test url] by blast
qed

theorem crawl_visits_once_and_terminates_witness:
  "crawlReaches cyclicSite siteTest ''https://s.t''
     \<lparr>crawledUrls = [''https://s.t''], queue = [''https://s.t/a'']\<rparr> \<and>
   normalizeURL ''https://s.t'' = ''https://s.t'' \<and>
   filter (keepLink siteTest) (extractedLinks cyclicSite [''https://s.t'']) = [''https://s.t/a''] \<and>
   \<not> suffix ''//'' ''https://s.t/a'' \<and>
   distinct (map normalizeURL [''https://s.t/a'']) \<and> distinct (map normalizeURL [''https://s.t'']) \<and>
   normalizeURL ` set [''https://s.t/a''] \<inter> normalizeURL ` set [''https://s.t''] = {} \<and>
   ''https://s.t'' \<in> set [''https://s.t'', ''https://s.t/a'', ''https://s.t/b''] \<and>
   linkClosed cyclicSite siteTest [''https://s.t'', ''https://s.t/a'', ''https://s.t/b''] \<and>
   cyclicSite ''https://s.t'' \<noteq> FetchThrows \<and> cyclicSite ''https://s.t/a'' \<noteq> FetchThrows \<and>
   cyclicSite ''https://s.t/b'' \<noteq> FetchThrows \<and>
   (\<exists>final. crawl cyclicSite siteTest ''https://s.t'' = Some (Inr final) \<and> queue final = [])"
proof -
  let ?us = "[''https://s.t'', ''https://s.t/a'', ''https://s.t/b'']"
  let ?st = "\<lparr>crawledUrls = [''https://s.t''], queue = [''https://s.t/a'']\<rparr>"
  have n: "normalizeURL ''https://s.t'' = ''https://s.t''" by code_simp
  have k: "filter (keepLink siteTest) (extractedLinks cyclicSite [''https://s.t'']) = [''https://s.t/a'']"
    by code_simp
  have s: "\<not> suffix ''//'' ''https://s.t/a''" by (simp add: suffix_def)
  have links: "\<forall>l \<in> set (extractedLinks cyclicSite (crawledUrls ?st)).
                 keepLink siteTest l \<longrightarrow> \<not> suffix ''//'' l"
  proof (intro ballI impI)
    fix l assume "l \<in> set (extractedLinks cyclicSite (crawledUrls ?st))" "keepLink siteTest l"
    then have "l \<in> set (filter (keepLink siteTest) (extractedLinks cyclicSite [''https://s.t'']))"
      by simp
    then show "\<not> suffix ''//'' l" using s unfolding k by simp
  qed
  have ok: "\<forall>u \<in> set ?us. cyclicSite u \<noteq> FetchThrows" by (simp add: cyclicSite_def)
  have seed: "''https://s.t'' \<in> set ?us" by simp
  note t = crawl_visits_once_and_terminates [of cyclicSite siteTest "''https://s.t''" ?st ?us]
  have a: "distinct (map normalizeURL (queue ?st)) \<and> distinct (map normalizeURL (crawledUrls ?st)) \<and>
         normalizeURL ` set (queue ?st) \<inter> normalizeURL ` set (crawledUrls ?st) = {}"
    using t reaches_cyclicSite n links by blast
  have b: "\<exists>final. crawl cyclicSite siteTest ''https://s.t'' = Some (Inr final) \<and> queue final = []"
    using t seed linkClosed_cyclicSite ok by blast
  show ?thesis
    using a b reaches_cyclicSite n k s seed linkClosed_cyclicSite ok by simp
qed

text \<open>
  C1 (as stated): no CrawlTarget, a URL identified by its normalized form, is fetched more
  than once. This fails: \<open>normalizeURL\<close> removes one trailing slash, and the queue and the
  visited set compare strings. The links \<open>https://s.t/p//\<close> and \<open>https://s.t/p/\<close> are
  queued as \<open>https://s.t/p/\<close> and \<open>https://s.t/p\<close>; both are fetched, and both have the
  normalized form \<open>https://s.t/p\<close>.
\<close>

theorem crawl_same_target_twice:
  "crawl doubleSlashSite siteTest ''https://s.t'' =
     Some (Inr \<lparr>crawledUrls = [''https://s.t'', ''https://s.t/p/'', ''https://s.t/p''],
                queue = []\<rparr>) \<and>
   normalizeURL ''https://s.t/p/'' = normalizeURL ''https://s.t/p'' \<and>
   \<not> distinct (map normalizeURL [''https://s.t'', ''https://s.t/p/'', ''https://s.t/p''])"
  by code_simp

text \<open>
  The seed enters the queue as it is given, not in its normalized form. A seed that ends
  in a slash is therefore fetched again, without the slash, when a page links to it.
\<close>

lemma crawl_seed_fetched_again:
  "crawl docsSite docsTest ''https://s.t/docs/'' =
     Some (Inr \<lparr>crawledUrls = [''https://s.t/docs/'', ''https://s.t/docs''], queue = []\<rparr>) \<and>
   normalizeURL ''https://s.t/docs/'' = ''https://s.t/docs''"
  by code_simp

text \<open>
  C5 (amended): a link is put in the queue only in its normalized form and only when its
  resolved form contains none of \<open>#\<close>, \<open>mailto:\<close>, \<open>tel:\<close> and satisfies the pattern.
  So every member of the visited set or the queue other than the seed is the normalized
  form of such a link, extracted from a visited page, and itself contains none of \<open>#\<close>,
  \<open>mailto:\<close>, \<open>tel:\<close>.
\<close>

theorem crawl_scope:
  assumes "crawlReaches fetch test url st"
    and "v \<in> set (crawledUrls st) \<union> set (queue st)" and "v \<noteq> url"
  shows "(\<exists>l \<in> set (extractedLinks fetch (crawledUrls st)). keepLink test l \<and> v = normalizeURL l) \<and>
         \<not> includesStr v ''#'' \<and> \<not> includesStr v ''mailto:'' \<and> \<not> includesStr v ''tel:''"
proof -
  obtain l where l: "l \<in> set (extractedLinks fetch (crawledUrls st))" "keepLink test l"
    "v = normalizeURL l"
    using crawlReaches_scopeInv [OF assms(1)] assms(2,3) unfolding scopeInv_def by blast
  have "\<not> includesStr l ''#''" "\<not> includesStr l ''mailto:''" "\<not> includesStr l ''tel:''"
    using l(2) by (simp_all add: keepLink_def)
  then have "\<not> includesStr v ''#''" "\<not> includesStr v ''mailto:''" "\<not> includesStr v ''tel:''"
    unfolding l(3) by (blast dest: includesStr_normalizeURL)+
  then show ?thesis using l by blast
qed

theorem crawl_scope_witness:
  "crawlReaches cyclicSite siteTest ''https://s.t''
     \<lparr>crawledUrls = [''https://s.t'', ''https://s.t/a'', ''https://s.t/b''], queue = []\<rparr> \<and>
   ''https://s.t/a'' \<noteq> ''https://s.t'' \<and>
   (\<exists>l \<in> set (extractedLinks cyclicSite [''https://s.t'', ''https://s.t/a'', ''https://s.t/b'']).
      keepLink siteTest l \<and> ''https://s.t/a'' = normalizeURL l) \<and>
   \<not> includesStr ''https://s.t/a'' ''#'' \<and> \<not> includesStr ''https://s.t/a'' ''mailto:'' \<and>
   \<not> includesStr ''https://s.t/a'' ''tel:''"
proof -
  let ?final = "\<lparr>crawledUrls = [''https://s.t'', ''https://s.t/a'', ''https://s.t/b''], queue = []\<rparr>"
  have r: "crawlReaches cyclicSite siteTest ''https://s.t'' ?final"
    using crawl_result_reached [OF crawl_cyclicSite] by simp
  have m: "''https://s.t/a'' \<in> set (crawledUrls ?final) \<union> set (queue ?final)" by simp
  have n: "''https://s.t/a'' \<noteq> ''https://s.t''" by simp
  show ?thesis using crawl_scope [OF r m n] r by simp
qed

text \<open>
  C5 (as stated): a link whose resolved form does not satisfy the pattern is never added
  to the visited set. This fails: the pattern is tested before normalization, and the
  visited set holds normalized forms. With the seed \<open>https://s.t/docs/\<close> and the pattern
  "starts with the seed", the link \<open>https://s.t/docs/\<close> passes and is stored as
  \<open>https://s.t/docs\<close>; the extracted link \<open>https://s.t/docs\<close> does not satisfy the
  pattern, and is in the visited set.
\<close>

theorem crawl_scope_counterexample:
  "crawl docsSite docsTest ''https://s.t/docs/'' =
     Some (Inr \<lparr>crawledUrls = [''https://s.t/docs/'', ''https://s.t/docs''], queue = []\<rparr>) \<and>
   ''https://s.t/docs'' \<in> set (extractedLinks docsSite [''https://s.t/docs/'', ''https://s.t/docs'']) \<and>
   \<not> docsTest ''https://s.t/docs'' \<and>
   ''https://s.t/docs'' \<in> set [''https://s.t/docs/'', ''https://s.t/docs'']"
  by code_simp

text \<open>
  C6: on a finite link graph the crawl returns, and unless a page fails to load (the run
  is then aborted and there is no discovered set) the seed URL is in the discovered set
  and is the first entry of the list handed to the render stage, whether or not a page
  links back to it.
\<close>

theorem seed_first:
  assumes "url \<in> set us" and "linkClosed fetch test us"
  shows "\<exists>r. crawl fetch test url = Some r \<and>
           (case r of
              Inl e \<Rightarrow> \<exists>u \<in> set us. fetch u = FetchThrows
            | Inr st \<Rightarrow> url \<in> set (crawledUrls st) \<and>
                       (\<exists>rest. uniqueSubLinks url (crawledUrls st) = url # rest)) \<and>
           ((\<forall>u \<in> set us. fetch u \<noteq> FetchThrows) \<longrightarrow> (\<exists>st. r = Inr st))"
proof -
  obtain r where r: "crawl fetch test url = Some r"
    and ok: "(\<forall>u \<in> set us. fetch u \<noteq> FetchThrows) \<longrightarrow> (\<exists>final. r = Inr final)"
    using crawl_terminates [OF assms] by blast
  have "case r of
          Inl e \<Rightarrow> \<exists>u \<in> set us. fetch u = FetchThrows
        | Inr st \<Rightarrow> url \<in> set (crawledUrls st) \<and>
                   (\<exists>rest. uniqueSubLinks url (crawledUrls st) = url # rest)"
  proof (cases r)
    case (Inl e)
    then show ?thesis using ok by auto
  next
    case (Inr st)
    then have c: "crawl fetch test url = Some (Inr st)" using r by simp
    have reach: "crawlReaches fetch test url st" and q: "queue st = []"
      using crawl_result_reached [OF c] by simp_all
    have "seedFirst url st" using reach by (rule crawlReaches_seedFirst)
    then have "crawledUrls st \<noteq> []" "hd (crawledUrls st) = url"
      using q by (auto simp: seedFirst_def split: if_splits)
    then obtain rest where "crawledUrls st = url # rest"
      by (cases "crawledUrls st") auto
    then show ?thesis using Inr by (simp add: uniqueSubLinks_def)
  qed
  then show ?thesis using r ok by blast
qed

lemma linkClosed_plainSite:
  "linkClosed plainSite siteTest [''https://s.t'', ''https://s.t/a'']"
  by code_simp

theorem seed_first_witness:
  "''https://s.t'' \<in> set [''https://s.t'', ''https://s.t/a''] \<and>
   linkClosed plainSite siteTest [''https://s.t'', ''https://s.t/a''] \<and>
   plainSite ''https://s.t'' \<noteq> FetchThrows \<and> plainSite ''https://s.t/a'' \<noteq> FetchThrows \<and>
   crawl plainSite siteTest ''https://s.t'' =
     Some (Inr \<lparr>crawledUrls = [''https://s.t'', ''https://s.t/a''], queue = []\<rparr>) \<and>
   uniqueSubLinks ''https://s.t'' [''https://s.t'', ''https://s.t/a''] =
     ''https://s.t'' # [''https://s.t/a'']"
proof -
  have seed: "''https://s.t'' \<in> set [''https://s.t'', ''https://s.t/a'']" by simp
  have ok: "plainSite ''https://s.t'' \<noteq> FetchThrows" "plainSite ''https://s.t/a'' \<noteq> FetchThrows"
    by (simp_all add: plainSite_def)
  have c: "crawl plainSite siteTest ''https://s.t'' =
     Some (Inr \<lparr>crawledUrls = [''https://s.t'', ''https://s.t/a''], queue = []\<rparr>)"
    by code_simp
  have "\<exists>rest. uniqueSubLinks ''https://s.t'' [''https://s.t'', ''https://s.t/a''] =
          ''https://s.t'' # rest"
    using seed_first [OF seed linkClosed_plainSite] c by auto
  then show ?thesis using seed linkClosed_plainSite ok c by (simp add: uniqueSubLinks_def)
qed

section \<open>Rendering and assembly\<close>

lemma pdfResults_eq: "pdfResults results = List.map_filter settledValue results"
proof (induction results)
  case Nil
  show ?case by (simp add: pdfResults_def)
next
  case (Cons r rs)
  then show ?case
    by (cases r) (auto simp: pdfResults_def split: option.splits)
qed

lemma pdfResults_rendered:
  "pdfResults (map (generatePDFForPage browser) links) = successes browser links"
  unfolding pdfResults_eq successes_def
  by (induction links) (simp_all split: option.splits)

lemma successes_urls:
  "map fst (successes browser links) = filter (renderSucceeds browser) links"
proof -
  have "\<And>link. renderSucceeds browser link \<Longrightarrow>
          fst (the (settledValue (generatePDFForPage browser link))) = link"
    by (auto simp: renderSucceeds_def generatePDFForPage_def split: tab.splits option.splits if_splits)
  then show ?thesis
    by (induction links) (auto simp: successes_def map_filter_def renderSucceeds_def)
qed

lemma successes_empty:
  "successes browser links = [] \<longleftrightarrow> (\<forall>link \<in> set links. \<not> renderSucceeds browser link)"
  using successes_urls [of browser links]
  by (metis filter_False filter_empty_conv map_is_Nil_conv)

lemma addPdfs_result:
  "addPdfs load pdfDoc results =
     (if allLoad load results
      then Inr (pdfDoc @ concat (map (\<lambda>(url, buffer). pagesOf load buffer) results))
      else Inl PDFLoadError)"
proof (induction results arbitrary: pdfDoc)
  case Nil
  show ?case by (simp add: allLoad_def)
next
  case (Cons r rs)
  obtain url buffer where r: "r = (url, buffer)" by (cases r)
  show ?case
  proof (cases "load buffer")
    case None
    then show ?thesis by (simp add: r allLoad_def)
  next
    case (Some pages)
    then have p: "pagesOf load buffer = pages" by (simp add: pagesOf_def)
    show ?thesis
      using Cons [of "pdfDoc @ pages"] Some by (simp add: r allLoad_def p)
  qed
qed

lemma assemble_result:
  "assemble load separate (map (generatePDFForPage browser) links) =
     (if successes browser links = [] then Inl NoPDFsGenerated
      else if separate then Inr (Separate (successes browser links))
      else if allLoad load (successes browser links)
      then Inr (Combined (concat (map (\<lambda>(url, buffer). pagesOf load buffer)
                                   (successes browser links))))
      else Inl PDFLoadError)"
  by (simp add: assemble_def pdfResults_rendered addPdfs_result)

text \<open>
  C3: the assembler signals that no page was rendered exactly when every render failed
  (and then there is no output document). Otherwise the failed pages are left out and the
  output holds the pages that rendered, in the order of the input URLs: in separate mode
  one entry per rendered page, in combined mode the pages of the rendered documents one
  after the other, provided all of them can be loaded (a document that cannot be loaded
  is a different error).
\<close>

theorem partial_failure:
  "(assemble load separate (map (generatePDFForPage browser) links) = Inl NoPDFsGenerated
      \<longleftrightarrow> (\<forall>link \<in> set links. \<not> renderSucceeds browser link)) \<and>
   map fst (successes browser links) = filter (renderSucceeds browser) links \<and>
   ((\<exists>link \<in> set links. renderSucceeds browser link) \<longrightarrow>
      assemble load True (map (generatePDFForPage browser) links) =
        Inr (Separate (successes browser links)) \<and>
      assemble load False (map (generatePDFForPage browser) links) =
        (if allLoad load (successes browser links)
         then Inr (Combined (concat (map (\<lambda>(url, buffer). pagesOf load buffer)
                                      (successes browser links))))
         else Inl PDFLoadError))"
  using successes_empty [of browser links] successes_urls [of browser links]
  by (auto simp: assemble_result)

theorem partial_failure_witness:
  "\<not> renderSucceeds exampleTabs ''https://s.t/a'' \<and>
   renderSucceeds exampleTabs ''https://s.t'' \<and> renderSucceeds exampleTabs ''https://s.t/b'' \<and>
   assemble exampleLoad False (map (generatePDFForPage exampleTabs) threeLinks)
     \<noteq> Inl NoPDFsGenerated \<and>
   map fst (successes exampleTabs threeLinks) = [''https://s.t'', ''https://s.t/b''] \<and>
   assemble exampleLoad True (map (generatePDFForPage exampleTabs) threeLinks) =
     Inr (Separate [(''https://s.t'', ''pdf-seed''), (''https://s.t/b'', ''pdf-b'')]) \<and>
   allLoad exampleLoad (successes exampleTabs threeLinks) \<and>
   assemble exampleLoad False (map (generatePDFForPage exampleTabs) threeLinks) =
     Inr (Combined [1, 2, 3])"
proof -
  have s: "successes exampleTabs threeLinks =
             [(''https://s.t'', ''pdf-seed''), (''https://s.t/b'', ''pdf-b'')]"
    by code_simp
  have r: "\<not> renderSucceeds exampleTabs ''https://s.t/a''"
    "renderSucceeds exampleTabs ''https://s.t''" "renderSucceeds exampleTabs ''https://s.t/b''"
    by (simp_all add: renderSucceeds_def generatePDFForPage_def exampleTabs_def)
  have l: "allLoad exampleLoad [(''https://s.t'', ''pdf-seed''), (''https://s.t/b'', ''pdf-b'')]"
    by code_simp
  have p: "pagesOf exampleLoad ''pdf-seed'' = [1, 2]" "pagesOf exampleLoad ''pdf-b'' = [3]"
    by (simp_all add: pagesOf_def exampleLoad_def)
  have e: "\<exists>link \<in> set threeLinks. renderSucceeds exampleTabs link"
    using r(2) by (auto simp: threeLinks_def)
  show ?thesis
    using partial_failure [of exampleLoad False exampleTabs threeLinks] e r l p
    by (simp add: s)
qed

lemma length_settle:
  "length (foldl (settleAt ps) slots completion) = length slots"
  by (induction completion arbitrary: slots) (simp_all add: settleAt_def)

lemma nth_settle:
  "length slots = length ps \<Longrightarrow> i < length ps \<Longrightarrow>
   foldl (settleAt ps) slots completion ! i =
     (if i \<in> set completion then Some (ps ! i) else slots ! i)"
proof (induction completion arbitrary: slots)
  case Nil
  show ?case by simp
next
  case (Cons j js)
  have "length (settleAt ps slots j) = length ps" using Cons.prems by (simp add: settleAt_def)
  from Cons.IH [OF this Cons.prems(2)] show ?case
    using Cons.prems by (auto simp: settleAt_def nth_list_update)
qed

lemma allSettled_all:
  assumes "{..<length ps} \<subseteq> set completion"
  shows "allSettled completion ps = Some ps"
proof -
  let ?slots = "foldl (settleAt ps) (replicate (length ps) None) completion"
  have len: "length ?slots = length ps" by (simp add: length_settle)
  have nth: "\<And>i. i < length ps \<Longrightarrow> ?slots ! i = Some (ps ! i)"
    using assms by (subst nth_settle) auto
  have "?slots = map Some ps"
    using len nth by (intro nth_equalityI) simp_all
  then show ?thesis by (simp add: allSettled_def Let_def list_all_iff comp_def)
qed

text \<open>
  C4: whatever the order in which the render tasks settle, the i-th result is the result
  of rendering the i-th input URL (and a successful result carries that URL). In combined
  mode the merged document consists of the pages of the rendered documents in input
  order, so its page count is the sum of their page counts.
\<close>

theorem render_results_aligned:
  assumes "{..<length links} \<subseteq> set completion"
  shows "renderAll completion browser links = Some (map (generatePDFForPage browser) links) \<and>
         (\<forall>results i. renderAll completion browser links = Some results \<and> i < length links \<longrightarrow>
            length results = length links \<and>
            results ! i = generatePDFForPage browser (links ! i) \<and>
            (\<forall>url buffer. results ! i = Fulfilled (Some (url, buffer)) \<longrightarrow> url = links ! i)) \<and>
         (\<forall>results pdfDoc.
            renderAll completion browser links = Some results \<and>
            assemble load False results = Inr (Combined pdfDoc) \<longrightarrow>
              pdfDoc = concat (map (\<lambda>(url, buffer). pagesOf load buffer) (successes browser links)) \<and>
              length pdfDoc =
                sum_list (map (\<lambda>(url, buffer). length (pagesOf load buffer))
                           (successes browser links)))"
proof -
  have r: "renderAll completion browser links = Some (map (generatePDFForPage browser) links)"
    using assms by (simp add: renderAll_def allSettled_all)
  have u: "\<And>i url buffer. generatePDFForPage browser (links ! i) = Fulfilled (Some (url, buffer))
             \<Longrightarrow> url = links ! i"
    by (auto simp: generatePDFForPage_def split: tab.splits option.splits if_splits)
  have c: "\<And>pdfDoc. assemble load False (map (generatePDFForPage browser) links) = Inr (Combined pdfDoc)
             \<Longrightarrow> pdfDoc = concat (map (\<lambda>(url, buffer). pagesOf load buffer) (successes browser links))"
    by (auto simp: assemble_result split: if_splits)
  have n: "length (concat (map (\<lambda>(url, buffer). pagesOf load buffer) (successes browser links))) =
           sum_list (map (\<lambda>(url, buffer). length (pagesOf load buffer)) (successes browser links))"
    by (simp add: length_concat comp_def case_prod_unfold)
  show ?thesis using r u c n by auto
qed

theorem render_results_aligned_witness:
  "{..<length threeLinks} \<subseteq> set [2, 0, 1] \<and>
   renderAll [2, 0, 1] exampleTabs threeLinks =
     Some [Fulfilled (Some (''https://s.t'', ''pdf-seed'')), Fulfilled None,
           Fulfilled (Some (''https://s.t/b'', ''pdf-b''))] \<and>
   assemble exampleLoad False
     [Fulfilled (Some (''https://s.t'', ''pdf-seed'')), Fulfilled None,
      Fulfilled (Some (''https://s.t/b'', ''pdf-b''))] = Inr (Combined [1, 2, 3]) \<and>
   [1, 2, 3] = concat (map (\<lambda>(url, buffer). pagesOf exampleLoad buffer)
                        (successes exampleTabs threeLinks)) \<and>
   length [1, 2, 3 :: nat] =
     sum_list (map (\<lambda>(url, buffer). length (pagesOf exampleLoad buffer))
                (successes exampleTabs threeLinks))"
proof -
  have h: "{..<length threeLinks} \<subseteq> set [2, 0, 1]"
    by (auto simp: threeLinks_def)
  have m: "map (generatePDFForPage exampleTabs) threeLinks =
     [Fulfilled (Some (''https://s.t'', ''pdf-seed'')), Fulfilled None,
      Fulfilled (Some (''https://s.t/b'', ''pdf-b''))]"
    by code_simp
  have a: "assemble exampleLoad False
     [Fulfilled (Some (''https://s.t'', ''pdf-seed'')), Fulfilled None,
      Fulfilled (Some (''https://s.t/b'', ''pdf-b''))] = Inr (Combined [1, 2, 3])"
    by code_simp
  note t = render_results_aligned [OF h, of exampleTabs exampleLoad]
  have r: "renderAll [2, 0, 1] exampleTabs threeLinks =
     Some [Fulfilled (Some (''https://s.t'', ''pdf-seed'')), Fulfilled None,
           Fulfilled (Some (''https://s.t/b'', ''pdf-b''))]"
    using t by (simp add: m)
  have "[1, 2, 3] = concat (map (\<lambda>(url, buffer). pagesOf exampleLoad buffer)
                        (successes exampleTabs threeLinks)) \<and>
   length [1, 2, 3 :: nat] =
     sum_list (map (\<lambda>(url, buffer). length (pagesOf exampleLoad buffer))
                (successes exampleTabs threeLinks))"
    using t r a by blast
  then show ?thesis using h r a by blast
qed

section \<open>The default pattern and \<open>main\<close>\<close>

lemma fragmentRegExp_conforms: "RegExp_conforms fragmentRegExp"
  by (simp add: RegExp_conforms_def fragmentRegExp_def split: parse.splits)

lemma conforms_test:
  "RegExp_conforms RegExp_new \<Longrightarrow> parseRegExp src = Parsed ts \<Longrightarrow>
   inPageTest RegExp_new src resolvedUrl = matchesPrefix ts resolvedUrl"
  unfolding RegExp_conforms_def inPageTest_def
  by (drule spec [of _ src]) simp

lemma conforms_syntax_error:
  "RegExp_conforms RegExp_new \<Longrightarrow> parseRegExp src = NothingToRepeat \<Longrightarrow> RegExp_new src = None"
  unfolding RegExp_conforms_def
  by (drule spec [of _ src]) simp

text \<open>
  C9: without a pattern argument, the filtering predicate accepts exactly the URLs that
  start with the seed. The code does otherwise: the seed is placed in the regular
  expression as it is, so its characters \<open>.\<close> and \<open>?\<close> act as operators. With the seed
  \<open>https://a.com\<close> the URL \<open>https://axcom/\<close> is accepted though it does not start with
  the seed; with the seed \<open>https://a.com/?q=1\<close> the seed itself is rejected though it
  starts with the seed.
\<close>

theorem default_pattern_is_not_prefix_test:
  assumes "RegExp_conforms RegExp_new"
  shows "inPageTest RegExp_new (patternSource NoPattern ''https://a.com'') ''https://axcom/'' \<and>
         \<not> startsWith ''https://axcom/'' ''https://a.com'' \<and>
         \<not> inPageTest RegExp_new (patternSource NoPattern ''https://a.com/?q=1'') ''https://a.com/?q=1'' \<and>
         startsWith ''https://a.com/?q=1'' ''https://a.com/?q=1''"
proof -
  have p1: "parseRegExp (patternSource NoPattern ''https://a.com'') =
     Parsed (map (\<lambda>a. (a, Once))
       (map Literal ''https://a'' @ [AnyChar] @ map Literal ''com''))"
    by code_simp
  have m1: "matchesPrefix (map (\<lambda>a. (a, Once))
       (map Literal ''https://a'' @ [AnyChar] @ map Literal ''com'')) ''https://axcom/''"
    by code_simp
  have p2: "parseRegExp (patternSource NoPattern ''https://a.com/?q=1'') =
     Parsed (map (\<lambda>a. (a, Once)) (map Literal ''https://a'' @ [AnyChar] @ map Literal ''com'')
             @ [(Literal CHR ''/'', Optional)] @ map (\<lambda>a. (a, Once)) (map Literal ''q=1''))"
    by code_simp
  have m2: "\<not> matchesPrefix (map (\<lambda>a. (a, Once)) (map Literal ''https://a'' @ [AnyChar] @ map Literal ''com'')
             @ [(Literal CHR ''/'', Optional)] @ map (\<lambda>a. (a, Once)) (map Literal ''q=1''))
             ''https://a.com/?q=1''"
    by code_simp
  have s: "\<not> startsWith ''https://axcom/'' ''https://a.com''"
    "startsWith ''https://a.com/?q=1'' ''https://a.com/?q=1''"
    by simp_all
  show ?thesis
    using m1 m2 s by (simp only: conforms_test [OF assms p1] conforms_test [OF assms p2] simp_thms)
qed

theorem default_pattern_is_not_prefix_test_witness:
  "RegExp_conforms fragmentRegExp \<and>
   inPageTest fragmentRegExp (patternSource NoPattern ''https://a.com'') ''https://axcom/'' \<and>
   \<not> startsWith ''https://axcom/'' ''https://a.com'' \<and>
   \<not> inPageTest fragmentRegExp (patternSource NoPattern ''https://a.com/?q=1'') ''https://a.com/?q=1'' \<and>
   startsWith ''https://a.com/?q=1'' ''https://a.com/?q=1''"
  using default_pattern_is_not_prefix_test [OF fragmentRegExp_conforms] fragmentRegExp_conforms
  by blast

text \<open>
  C10: once a non-empty seed is given, \<open>main\<close> never passes an error to its caller.
  The code does otherwise: the default pattern is compiled before the \<open>try\<close>, from the
  seed as it is. With the seed \<open>https://en.wikipedia.org/wiki/C++\<close> and no pattern
  argument, \<open>new RegExp\<close> throws (nothing to repeat), and \<open>main\<close> throws with it:
  nothing is caught or reported, and no browser was started.
\<close>

theorem main_throws_on_seed_with_plus:
  assumes "RegExp_conforms RegExp_new"
  shows "main RegExp_new w (Some ''https://en.wikipedia.org/wiki/C++'') NoPattern separate =
           Some (Throws RegExpSyntaxError)"
proof -
  have "parseRegExp (defaultPatternSource ''https://en.wikipedia.org/wiki/C++'') = NothingToRepeat"
    by code_simp
  then have "RegExp_new (defaultPatternSource ''https://en.wikipedia.org/wiki/C++'') = None"
    using assms by (rule conforms_syntax_error [rotated])
  then show ?thesis by (simp add: main_def)
qed

theorem main_throws_on_seed_with_plus_witness:
  "RegExp_conforms fragmentRegExp \<and>
   main fragmentRegExp exampleWorld (Some ''https://en.wikipedia.org/wiki/C++'') NoPattern False =
     Some (Throws RegExpSyntaxError)"
  using main_throws_on_seed_with_plus [OF fragmentRegExp_conforms, of exampleWorld False]
    fragmentRegExp_conforms
  by blast

text \<open>
  Past the default pattern, \<open>main\<close> does resolve whenever it returns: every error of the
  \<open>try\<close> block is caught, and \<open>close\<close> is called exactly when the browser had started.
\<close>

lemma main_resolves_when_pattern_compiles:
  assumes "url \<noteq> []"
    and "\<not> (usesDefault urlPattern \<and> RegExp_new (defaultPatternSource url) = None)"
    and "main RegExp_new w (Some url) urlPattern separate = Some r"
  shows "\<exists>rep. r = Resolves rep \<and> (closeCalled rep \<longleftrightarrow> launchOk w)"
  using assms
  by (auto simp: main_def tryBlock_def split: if_splits option.splits sum.splits prod.splits)

end
